theory Spec2Isabelle
  imports Main "HOL-Library.Word" "HOL-Library.Monad_Syntax"
begin

section \<open>The list engine of \<^verbatim>\<open>kernel_list.h\<close>\<close>

subsection \<open>Links and memory\<close>

text \<open>
  An address is a machine word of the platform's pointer width \<open>'a\<close>; the development
  holds for every width. \<^verbatim>\<open>struct list_head\<close> is a pair of addresses. Memory is
  a partial map from addresses to Links: an address outside its domain holds no Link, and
  reading or writing through it, or through \<^verbatim>\<open>NULL\<close>, is undefined behaviour in C
  and the value \<open>None\<close> here.
\<close>

record (overloaded) ('a::len) list_head =
  "next" :: "'a word"
  prev :: "'a word"

type_synonym 'a heap = "'a word \<Rightarrow> 'a list_head option"

definition NULL :: "'a::len word" where
  "NULL = 0"

text \<open>
  The poison values. The source keeps the kernel's addresses \<^verbatim>\<open>0x00100100\<close> and
  \<^verbatim>\<open>0x00200200\<close> under \<^verbatim>\<open>#if 0\<close>; the branch that is compiled defines both
  as \<^verbatim>\<open>NULL\<close>.
\<close>

definition LIST_POISON1 :: "'a::len word" where
  "LIST_POISON1 = NULL"

definition LIST_POISON2 :: "'a::len word" where
  "LIST_POISON2 = NULL"

definition deref :: "'a::len heap \<Rightarrow> 'a word \<Rightarrow> 'a list_head option" where
  "deref hp p = (if p = NULL then None else hp p)"

text \<open>The two assignments \<^verbatim>\<open>p->next = v\<close> and \<^verbatim>\<open>p->prev = v\<close>.\<close>

definition set_next :: "'a::len heap \<Rightarrow> 'a word \<Rightarrow> 'a word \<Rightarrow> 'a heap option" where
  "set_next hp p v =
     (case deref hp p of None \<Rightarrow> None | Some l \<Rightarrow> Some (hp(p \<mapsto> l\<lparr>next := v\<rparr>)))"

definition set_prev :: "'a::len heap \<Rightarrow> 'a word \<Rightarrow> 'a word \<Rightarrow> 'a heap option" where
  "set_prev hp p v =
     (case deref hp p of None \<Rightarrow> None | Some l \<Rightarrow> Some (hp(p \<mapsto> l\<lparr>prev := v\<rparr>)))"

subsection \<open>Entry recovery\<close>

text \<open>
  \<^verbatim>\<open>offsetof(type, member)\<close> is fixed by the layout of the embedding structure; it
  is the parameter \<open>k\<close> below. \<^verbatim>\<open>container_of\<close> subtracts it from the address of
  the member, as arithmetic on \<^verbatim>\<open>char *\<close>; \<^verbatim>\<open>&pos->member\<close> adds it.
\<close>

definition container_of :: "'a::len word \<Rightarrow> 'a word \<Rightarrow> 'a word" where
  "container_of ptr k = ptr - k"

definition list_entry :: "'a::len word \<Rightarrow> 'a word \<Rightarrow> 'a word" where
  "list_entry ptr k = container_of ptr k"

definition member_addr :: "'a::len word \<Rightarrow> 'a word \<Rightarrow> 'a word" where
  "member_addr pos k = pos + k"

subsection \<open>Operations\<close>

definition INIT_LIST_HEAD :: "'a::len heap \<Rightarrow> 'a word \<Rightarrow> 'a heap option" where
  "INIT_LIST_HEAD hp list = do {
     hp \<leftarrow> set_next hp list list;
     set_prev hp list list
   }"

text \<open>\<^verbatim>\<open>__list_add\<close> of the source.\<close>

definition raw_list_add ::
  "'a::len heap \<Rightarrow> 'a word \<Rightarrow> 'a word \<Rightarrow> 'a word \<Rightarrow> 'a heap option" where
  "raw_list_add hp new_node prev_node next_node = do {
     hp \<leftarrow> set_prev hp next_node new_node;
     hp \<leftarrow> set_next hp new_node next_node;
     hp \<leftarrow> set_prev hp new_node prev_node;
     set_next hp prev_node new_node
   }"

definition list_add :: "'a::len heap \<Rightarrow> 'a word \<Rightarrow> 'a word \<Rightarrow> 'a heap option" where
  "list_add hp new_node head_node = do {
     h \<leftarrow> deref hp head_node;
     raw_list_add hp new_node head_node (next h)
   }"

definition list_add_tail :: "'a::len heap \<Rightarrow> 'a word \<Rightarrow> 'a word \<Rightarrow> 'a heap option" where
  "list_add_tail hp new_node head_node = do {
     h \<leftarrow> deref hp head_node;
     raw_list_add hp new_node (prev h) head_node
   }"

text \<open>\<^verbatim>\<open>__list_del\<close> of the source.\<close>

definition raw_list_del :: "'a::len heap \<Rightarrow> 'a word \<Rightarrow> 'a word \<Rightarrow> 'a heap option" where
  "raw_list_del hp prev_node next_node = do {
     hp \<leftarrow> set_prev hp next_node prev_node;
     set_next hp prev_node next_node
   }"

definition list_del :: "'a::len heap \<Rightarrow> 'a word \<Rightarrow> 'a heap option" where
  "list_del hp entry_node = do {
     e \<leftarrow> deref hp entry_node;
     hp \<leftarrow> raw_list_del hp (prev e) (next e);
     hp \<leftarrow> set_next hp entry_node LIST_POISON1;
     set_prev hp entry_node LIST_POISON2
   }"

text \<open>The C function returns the \<^verbatim>\<open>int\<close> value of the comparison, 1 or 0.\<close>

definition list_empty :: "'a::len heap \<Rightarrow> 'a word \<Rightarrow> bool option" where
  "list_empty hp head_node = do {
     h \<leftarrow> deref hp head_node;
     Some (next h = head_node)
   }"

text \<open>Each of the four statements of \<^verbatim>\<open>list_replace\<close> reads the memory left by the
  statements before it.\<close>

definition list_replace :: "'a::len heap \<Rightarrow> 'a word \<Rightarrow> 'a word \<Rightarrow> 'a heap option" where
  "list_replace hp old_node new_node = do {
     ol \<leftarrow> deref hp old_node;
     hp \<leftarrow> set_next hp new_node (next ol);
     nw \<leftarrow> deref hp new_node;
     hp \<leftarrow> set_prev hp (next nw) new_node;
     ol \<leftarrow> deref hp old_node;
     hp \<leftarrow> set_prev hp new_node (prev ol);
     nw \<leftarrow> deref hp new_node;
     set_next hp (prev nw) new_node
   }"

definition list_replace_init :: "'a::len heap \<Rightarrow> 'a word \<Rightarrow> 'a word \<Rightarrow> 'a heap option" where
  "list_replace_init hp old_node new_node = do {
     hp \<leftarrow> list_replace hp old_node new_node;
     INIT_LIST_HEAD hp old_node
   }"

subsection \<open>Traversal\<close>

text \<open>
  The traversal macros are loops around a body supplied at the place of use. The body
  may write to memory and to the caller's own variables, so it is a function on pairs of
  the memory and a caller state, and it may fail. A loop that does not come back to the
  head does not return: its value is \<open>None\<close>.
\<close>

definition list_first_entry :: "'a::len heap \<Rightarrow> 'a word \<Rightarrow> 'a word \<Rightarrow> 'a word option" where
  "list_first_entry hp ptr k = do {
     h \<leftarrow> deref hp ptr;
     Some (list_entry (next h) k)
   }"

definition list_next_entry :: "'a::len heap \<Rightarrow> 'a word \<Rightarrow> 'a word \<Rightarrow> 'a word option" where
  "list_next_entry hp pos k = do {
     l \<leftarrow> deref hp (member_addr pos k);
     Some (list_entry (next l) k)
   }"

partial_function (option) list_for_each_loop ::
  "'a::len word \<Rightarrow> ('a word \<Rightarrow> 'a heap \<times> 'u \<Rightarrow> ('a heap \<times> 'u) option) \<Rightarrow> 'a word
     \<Rightarrow> 'a heap \<times> 'u \<Rightarrow> ('a heap \<times> 'u) option" where
  "list_for_each_loop head body pos s =
     (if pos \<noteq> head then do {
        s \<leftarrow> body pos s;
        l \<leftarrow> deref (fst s) pos;
        list_for_each_loop head body (next l) s
      } else Some s)"

definition list_for_each ::
  "'a::len word \<Rightarrow> ('a word \<Rightarrow> 'a heap \<times> 'u \<Rightarrow> ('a heap \<times> 'u) option)
     \<Rightarrow> 'a heap \<times> 'u \<Rightarrow> ('a heap \<times> 'u) option" where
  "list_for_each head body s = do {
     h \<leftarrow> deref (fst s) head;
     list_for_each_loop head body (next h) s
   }"

partial_function (option) list_for_each_entry_safe_loop ::
  "'a::len word \<Rightarrow> 'a word \<Rightarrow> ('a word \<Rightarrow> 'a heap \<times> 'u \<Rightarrow> ('a heap \<times> 'u) option)
     \<Rightarrow> 'a word \<Rightarrow> 'a word \<Rightarrow> 'a heap \<times> 'u \<Rightarrow> ('a heap \<times> 'u) option" where
  "list_for_each_entry_safe_loop head k body pos n s =
     (if member_addr pos k \<noteq> head then do {
        s \<leftarrow> body pos s;
        n' \<leftarrow> list_next_entry (fst s) n k;
        list_for_each_entry_safe_loop head k body n n' s
      } else Some s)"

definition list_for_each_entry_safe ::
  "'a::len word \<Rightarrow> 'a word \<Rightarrow> ('a word \<Rightarrow> 'a heap \<times> 'u \<Rightarrow> ('a heap \<times> 'u) option)
     \<Rightarrow> 'a heap \<times> 'u \<Rightarrow> ('a heap \<times> 'u) option" where
  "list_for_each_entry_safe head k body s = do {
     pos \<leftarrow> list_first_entry (fst s) head k;
     n \<leftarrow> list_next_entry (fst s) pos k;
     list_for_each_entry_safe_loop head k body pos n s
   }"

text \<open>Two loop bodies: one that records the Link it is given, and one that removes the
  entry it is given from its ring and records it.\<close>

definition visit :: "'a::len word \<Rightarrow> 'a heap \<times> 'a word list \<Rightarrow> ('a heap \<times> 'a word list) option" where
  "visit pos s = Some (fst s, snd s @ [pos])"

definition visit_del ::
  "'a::len word \<Rightarrow> 'a word \<Rightarrow> 'a heap \<times> 'a word list \<Rightarrow> ('a heap \<times> 'a word list) option" where
  "visit_del k pos s = do {
     hp \<leftarrow> list_del (fst s) (member_addr pos k);
     Some (hp, snd s @ [pos])
   }"

definition traversal :: "'a::len heap \<Rightarrow> 'a word \<Rightarrow> 'a word list option" where
  "traversal hp head = map_option snd (list_for_each head visit (hp, []))"

subsection \<open>Rings\<close>

text \<open>
  The two fields read through a pointer, and the relation of two Links that point at each
  other. A chain is a list of Links in which each is linked to the one after it; a ring is
  a non-empty list of distinct Links whose chain closes from the last Link back to the
  first. The first Link of the list is the one the ring is looked at from, the head
  sentinel when the ring is a list with entries.
\<close>

definition nxt :: "'a::len heap \<Rightarrow> 'a word \<Rightarrow> 'a word option" where
  "nxt hp p = map_option next (deref hp p)"

definition prv :: "'a::len heap \<Rightarrow> 'a word \<Rightarrow> 'a word option" where
  "prv hp p = map_option prev (deref hp p)"

definition linked :: "'a::len heap \<Rightarrow> 'a word \<Rightarrow> 'a word \<Rightarrow> bool" where
  "linked hp a b \<longleftrightarrow> nxt hp a = Some b \<and> prv hp b = Some a"

fun chain :: "'a::len heap \<Rightarrow> 'a word list \<Rightarrow> bool" where
  "chain hp [] = True"
| "chain hp [a] = True"
| "chain hp (a # b # xs) = (linked hp a b \<and> chain hp (b # xs))"

definition ring :: "'a::len heap \<Rightarrow> 'a word list \<Rightarrow> bool" where
  "ring hp ns \<longleftrightarrow> ns \<noteq> [] \<and> distinct ns \<and> chain hp (ns @ [hd ns])"

text \<open>A node the caller may insert: a valid pointer to a Link outside the ring, whose
  fields may hold anything.\<close>

definition fresh :: "'a::len heap \<Rightarrow> 'a word list \<Rightarrow> 'a word \<Rightarrow> bool" where
  "fresh hp ns n \<longleftrightarrow> n \<noteq> NULL \<and> hp n \<noteq> None \<and> n \<notin> set ns"

text \<open>The invariant of one Link \<open>x\<close>: \<^verbatim>\<open>x.next.prev == x\<close> and
  \<^verbatim>\<open>x.prev.next == x\<close>.\<close>

definition link_inv :: "'a::len heap \<Rightarrow> 'a word \<Rightarrow> bool" where
  "link_inv hp x =
     (case deref hp x of None \<Rightarrow> False
      | Some l \<Rightarrow> prv hp (next l) = Some x \<and> nxt hp (prev l) = Some x)"


subsection \<open>Entries and example memories\<close>

text \<open>The entries of a list, recovered from its Links in ring order.\<close>

definition entries :: "'a::len word \<Rightarrow> 'a word list \<Rightarrow> 'a word list" where
  "entries k ls = map (\<lambda>l. list_entry l k) ls"

text \<open>
  Three memories on a 64-bit platform: a head at \<open>0x10\<close> with two entries and an
  unlinked Link at \<open>0x40\<close>; a head with a single entry; and an empty head beside an
  unlinked Link.
\<close>

definition ex_ring :: "64 heap" where
  "ex_ring = [0x10 \<mapsto> \<lparr>next = 0x20, prev = 0x30\<rparr>, 0x20 \<mapsto> \<lparr>next = 0x30, prev = 0x10\<rparr>,
     0x30 \<mapsto> \<lparr>next = 0x10, prev = 0x20\<rparr>, 0x40 \<mapsto> \<lparr>next = 0, prev = 0\<rparr>]"

definition ex_pair :: "64 heap" where
  "ex_pair = [0x10 \<mapsto> \<lparr>next = 0x20, prev = 0x20\<rparr>, 0x20 \<mapsto> \<lparr>next = 0x10, prev = 0x10\<rparr>]"

definition ex_empty :: "64 heap" where
  "ex_empty = [0x10 \<mapsto> \<lparr>next = 0x10, prev = 0x10\<rparr>, 0x20 \<mapsto> \<lparr>next = 0, prev = 0\<rparr>]"

section \<open>Pointer writes and rings\<close>

lemma nxt_Some_iff: "nxt hp p = Some v \<longleftrightarrow> (\<exists>l. deref hp p = Some l \<and> next l = v)"
  by (auto simp: nxt_def)

lemma prv_Some_iff: "prv hp p = Some v \<longleftrightarrow> (\<exists>l. deref hp p = Some l \<and> prev l = v)"
  by (auto simp: prv_def)

lemma prv_None_iff: "prv hp p = None \<longleftrightarrow> nxt hp p = None"
  by (simp add: nxt_def prv_def)

lemma nxt_NULL [simp]: "nxt hp NULL = None" and prv_NULL [simp]: "prv hp NULL = None"
  by (simp_all add: nxt_def prv_def deref_def)

lemma set_next_eff:
  assumes "nxt hp p \<noteq> None"
  shows "\<exists>hp'. set_next hp p v = Some hp' \<and> nxt hp' = (nxt hp)(p \<mapsto> v) \<and> prv hp' = prv hp"
proof -
  from assms obtain l where l: "deref hp p = Some l" by (auto simp: nxt_def)
  then have p: "p \<noteq> NULL" by (auto simp: deref_def)
  let ?hp = "hp(p \<mapsto> l\<lparr>next := v\<rparr>)"
  have "nxt ?hp q = ((nxt hp)(p \<mapsto> v)) q" for q
    using p by (simp add: nxt_def deref_def)
  moreover have "prv ?hp q = prv hp q" for q
    using p l by (auto simp: prv_def deref_def)
  ultimately show ?thesis using l by (auto simp: set_next_def)
qed

lemma set_prev_eff:
  assumes "prv hp p \<noteq> None"
  shows "\<exists>hp'. set_prev hp p v = Some hp' \<and> prv hp' = (prv hp)(p \<mapsto> v) \<and> nxt hp' = nxt hp"
proof -
  from assms obtain l where l: "deref hp p = Some l" by (auto simp: prv_def)
  then have p: "p \<noteq> NULL" by (auto simp: deref_def)
  let ?hp = "hp(p \<mapsto> l\<lparr>prev := v\<rparr>)"
  have "prv ?hp q = ((prv hp)(p \<mapsto> v)) q" for q
    using p by (simp add: prv_def deref_def)
  moreover have "nxt ?hp q = nxt hp q" for q
    using p l by (auto simp: nxt_def deref_def)
  ultimately show ?thesis using l by (auto simp: set_prev_def)
qed

lemma chain_Cons: "chain hp (a # xs) \<longleftrightarrow> xs = [] \<or> linked hp a (hd xs) \<and> chain hp xs"
  by (cases xs) auto

lemma chain_append:
  "xs \<noteq> [] \<Longrightarrow> ys \<noteq> [] \<Longrightarrow>
   chain hp (xs @ ys) \<longleftrightarrow> chain hp xs \<and> linked hp (last xs) (hd ys) \<and> chain hp ys"
  by (induction hp xs rule: chain.induct) (auto simp: chain_Cons)

lemma chain_cong:
  "\<forall>a\<in>set (butlast xs). nxt hp' a = nxt hp a \<Longrightarrow> \<forall>a\<in>set (tl xs). prv hp' a = prv hp a \<Longrightarrow>
   chain hp' xs = chain hp xs"
  by (induction hp xs rule: chain.induct) (auto simp: linked_def)

lemma chain_snoc: "chain hp (xs @ [a, b]) \<longleftrightarrow> chain hp (xs @ [a]) \<and> linked hp a b"
  by (induction hp xs rule: chain.induct) auto

lemma ring_rotate1: "ring hp ns \<Longrightarrow> ring hp (rotate1 ns)"
  by (cases ns) (auto simp: ring_def chain_snoc chain_Cons)

lemma ring_rotate: "ring hp ns \<Longrightarrow> ring hp (rotate m ns)"
  by (induction m) (auto simp: ring_rotate1)

lemma ring_swap: "ring hp (xs @ ys) \<Longrightarrow> ring hp (ys @ xs)"
  using ring_rotate [of hp "xs @ ys" "length xs"] by (simp add: rotate_append)

lemma chain_frame:
  "chain hp xs \<Longrightarrow> \<forall>a\<in>set (butlast xs). nxt hp' a = nxt hp a \<Longrightarrow>
   \<forall>a\<in>set (tl xs). prv hp' a = prv hp a \<Longrightarrow> chain hp' xs"
  using chain_cong [of xs hp' hp] by simp

lemma raw_list_add_eff:
  assumes "nxt hp new_node \<noteq> None" "nxt hp prev_node \<noteq> None" "nxt hp next_node \<noteq> None"
  shows "\<exists>hp'. raw_list_add hp new_node prev_node next_node = Some hp' \<and>
    nxt hp' = (nxt hp)(new_node \<mapsto> next_node, prev_node \<mapsto> new_node) \<and>
    prv hp' = (prv hp)(next_node \<mapsto> new_node, new_node \<mapsto> prev_node)"
proof -
  have pv: "prv hp new_node \<noteq> None" "prv hp next_node \<noteq> None"
    using assms by (simp_all add: prv_None_iff)
  from set_prev_eff [OF pv(2), of new_node] obtain h1 where
    h1: "set_prev hp next_node new_node = Some h1" "prv h1 = (prv hp)(next_node \<mapsto> new_node)"
      "nxt h1 = nxt hp" by blast
  have "nxt h1 new_node \<noteq> None"
    using assms h1 by simp
  from set_next_eff [OF this, of next_node] obtain h2 where
    h2: "set_next h1 new_node next_node = Some h2" "nxt h2 = (nxt h1)(new_node \<mapsto> next_node)"
      "prv h2 = prv h1" by blast
  have "prv h2 new_node \<noteq> None"
    using pv h1 h2 by auto
  from set_prev_eff [OF this, of prev_node] obtain h3 where
    h3: "set_prev h2 new_node prev_node = Some h3" "prv h3 = (prv h2)(new_node \<mapsto> prev_node)"
      "nxt h3 = nxt h2" by blast
  have "nxt h3 prev_node \<noteq> None"
    using assms h1 h2 h3 by auto
  from set_next_eff [OF this, of new_node] obtain h4 where
    h4: "set_next h3 prev_node new_node = Some h4" "nxt h4 = (nxt h3)(prev_node \<mapsto> new_node)"
      "prv h4 = prv h3" by blast
  show ?thesis
    using h1 h2 h3 h4 by (simp add: raw_list_add_def)
qed

lemma list_del_eff:
  assumes "nxt hp n = Some N" "prv hp n = Some P" "nxt hp N \<noteq> None" "nxt hp P \<noteq> None"
  shows "\<exists>hp'. list_del hp n = Some hp' \<and>
    nxt hp' = (nxt hp)(P \<mapsto> N, n \<mapsto> LIST_POISON1) \<and>
    prv hp' = (prv hp)(N \<mapsto> P, n \<mapsto> LIST_POISON2)"
proof -
  from assms obtain l where l: "deref hp n = Some l" "next l = N" "prev l = P"
    by (auto simp: nxt_def prv_def)
  have "prv hp N \<noteq> None"
    using assms by (simp add: prv_None_iff)
  from set_prev_eff [OF this, of P] obtain h1 where
    h1: "set_prev hp N P = Some h1" "prv h1 = (prv hp)(N \<mapsto> P)" "nxt h1 = nxt hp" by blast
  have "nxt h1 P \<noteq> None"
    using assms h1 by simp
  from set_next_eff [OF this, of N] obtain h2 where
    h2: "set_next h1 P N = Some h2" "nxt h2 = (nxt h1)(P \<mapsto> N)" "prv h2 = prv h1" by blast
  have "nxt h2 n \<noteq> None"
    using assms h1 h2 by auto
  from set_next_eff [OF this, of LIST_POISON1] obtain h3 where
    h3: "set_next h2 n LIST_POISON1 = Some h3" "nxt h3 = (nxt h2)(n \<mapsto> LIST_POISON1)"
      "prv h3 = prv h2" by blast
  have "prv h3 n \<noteq> None"
    using h3 h2 h1 assms by auto
  from set_prev_eff [OF this, of LIST_POISON2] obtain h4 where
    h4: "set_prev h3 n LIST_POISON2 = Some h4" "prv h4 = (prv h3)(n \<mapsto> LIST_POISON2)"
      "nxt h4 = nxt h3" by blast
  show ?thesis
    using l h1 h2 h3 h4 by (simp add: list_del_def raw_list_del_def)
qed

lemma list_replace_eff:
  assumes "nxt hp old_node = Some N" "prv hp old_node = Some P" "nxt hp N \<noteq> None"
    "nxt hp P \<noteq> None" "nxt hp new_node \<noteq> None" "new_node \<noteq> old_node"
    and P': "P' = (if N = old_node then new_node else P)"
  shows "\<exists>hp'. list_replace hp old_node new_node = Some hp' \<and>
    nxt hp' = (nxt hp)(new_node \<mapsto> N, P' \<mapsto> new_node) \<and>
    prv hp' = (prv hp)(N \<mapsto> new_node, new_node \<mapsto> P')"
proof -
  from assms obtain l where l: "deref hp old_node = Some l" "next l = N"
    by (auto simp: nxt_def prv_def)
  from set_next_eff [OF assms(5), of N] obtain h1 where
    h1: "set_next hp new_node N = Some h1" "nxt h1 = (nxt hp)(new_node \<mapsto> N)" "prv h1 = prv hp"
    by blast
  have "nxt h1 new_node = Some N"
    using h1 by simp
  then obtain l1 where l1: "deref h1 new_node = Some l1" "next l1 = N"
    by (auto simp: nxt_Some_iff)
  have "prv h1 N \<noteq> None"
    using h1 assms by (simp add: prv_None_iff)
  from set_prev_eff [OF this, of new_node] obtain h2 where
    h2: "set_prev h1 N new_node = Some h2" "prv h2 = (prv h1)(N \<mapsto> new_node)" "nxt h2 = nxt h1"
    by blast
  have "prv h2 old_node = Some P'"
    using h2 h1 assms by simp
  then obtain l2 where l2: "deref h2 old_node = Some l2" "prev l2 = P'"
    by (auto simp: prv_Some_iff)
  have "prv hp new_node \<noteq> None"
    using assms by (simp add: prv_None_iff)
  then have "prv h2 new_node \<noteq> None"
    using h2 h1 by auto
  from set_prev_eff [OF this, of P'] obtain h3 where
    h3: "set_prev h2 new_node P' = Some h3" "prv h3 = (prv h2)(new_node \<mapsto> P')" "nxt h3 = nxt h2"
    by blast
  have "prv h3 new_node = Some P'"
    using h3 by simp
  then obtain l3 where l3: "deref h3 new_node = Some l3" "prev l3 = P'"
    by (auto simp: prv_Some_iff)
  have "nxt h3 P' \<noteq> None"
    using h3 h2 h1 assms by simp
  from set_next_eff [OF this, of new_node] obtain h4 where
    h4: "set_next h3 P' new_node = Some h4" "nxt h4 = (nxt h3)(P' \<mapsto> new_node)" "prv h4 = prv h3"
    by blast
  show ?thesis
    using l l1 l2 l3 h1 h2 h3 h4 by (simp add: list_replace_def)
qed

lemma INIT_LIST_HEAD_eff:
  assumes "nxt hp n \<noteq> None"
  shows "\<exists>hp'. INIT_LIST_HEAD hp n = Some hp' \<and>
    nxt hp' = (nxt hp)(n \<mapsto> n) \<and> prv hp' = (prv hp)(n \<mapsto> n)"
proof -
  from set_next_eff [OF assms, of n] obtain h1 where
    h1: "set_next hp n n = Some h1" "nxt h1 = (nxt hp)(n \<mapsto> n)" "prv h1 = prv hp"
    by blast
  have "prv h1 n \<noteq> None" using h1 assms by (simp add: prv_None_iff)
  from set_prev_eff [OF this, of n] obtain h2 where
    h2: "set_prev h1 n n = Some h2" "prv h2 = (prv h1)(n \<mapsto> n)" "nxt h2 = nxt h1"
    by blast
  show ?thesis using h1 h2 by (simp add: INIT_LIST_HEAD_def)
qed

lemma last_notin_butlast: "distinct xs \<Longrightarrow> xs \<noteq> [] \<Longrightarrow> last xs \<notin> set (butlast xs)"
  by (induction xs) (auto dest: in_set_butlastD)

lemma hd_notin_tl: "distinct xs \<Longrightarrow> xs \<noteq> [] \<Longrightarrow> hd xs \<notin> set (tl xs)"
  by (cases xs) auto

lemma ring_hd:
  assumes "ring hp (h # ls)"
  shows "nxt hp h = Some (hd (ls @ [h]))" "prv hp h = Some (last (h # ls))"
proof -
  from assms have c: "chain hp ((h # ls) @ [h])" by (simp add: ring_def)
  then show "nxt hp h = Some (hd (ls @ [h]))"
    by (simp add: chain_Cons linked_def)
  from c have "linked hp (last (h # ls)) h"
    by (subst (asm) chain_append) simp_all
  then show "prv hp h = Some (last (h # ls))"
    by (simp add: linked_def)
qed

lemma ring_valid:
  assumes "ring hp ns" "x \<in> set ns"
  shows "nxt hp x \<noteq> None"
proof -
  from assms(2) obtain pre post where "ns = pre @ x # post"
    by (auto simp: in_set_conv_decomp)
  with assms(1) have "ring hp ((x # post) @ pre)"
    using ring_swap by blast
  then show ?thesis using ring_hd(1) [of hp x "post @ pre"] by simp
qed

lemma ring_del_hd:
  assumes r: "ring hp (n # r)" and ne: "r \<noteq> []"
  shows "\<exists>hp'. list_del hp n = Some hp' \<and> ring hp' r \<and>
    nxt hp' = (nxt hp)(last r \<mapsto> hd r, n \<mapsto> LIST_POISON1) \<and>
    prv hp' = (prv hp)(hd r \<mapsto> last r, n \<mapsto> LIST_POISON2)"
proof -
  from ring_hd [OF r] ne have np: "nxt hp n = Some (hd r)" "prv hp n = Some (last r)"
    by simp_all
  have v: "nxt hp (hd r) \<noteq> None" "nxt hp (last r) \<noteq> None"
    using ring_valid [OF r] ne by simp_all
  from list_del_eff [OF np v] obtain hp' where
    hp': "list_del hp n = Some hp'" "nxt hp' = (nxt hp)(last r \<mapsto> hd r, n \<mapsto> LIST_POISON1)"
      "prv hp' = (prv hp)(hd r \<mapsto> last r, n \<mapsto> LIST_POISON2)" by blast
  from r have d: "distinct r" "n \<notin> set r" and c: "chain hp r"
    using ne by (simp_all add: ring_def chain_Cons chain_append)
  have "chain hp' r"
  proof (rule chain_frame [OF c])
    show "\<forall>a\<in>set (butlast r). nxt hp' a = nxt hp a"
      using d ne last_notin_butlast [of r] by (auto simp: hp' dest: in_set_butlastD)
    show "\<forall>a\<in>set (tl r). prv hp' a = prv hp a"
      using d ne hd_notin_tl [of r] by (auto simp: hp' dest: list.set_sel(2))
  qed
  moreover have "linked hp' (last r) (hd r)"
    using d ne by (auto simp: linked_def hp')
  ultimately have "ring hp' r"
    using d ne by (simp add: ring_def chain_append)
  with hp' show ?thesis by blast
qed

lemma ring_replace_hd:
  assumes r: "ring hp (old_node # r)" and f: "fresh hp (old_node # r) new_node"
  shows "\<exists>hp'. list_replace hp old_node new_node = Some hp' \<and> ring hp' (new_node # r) \<and>
    nxt hp' = (nxt hp)(new_node \<mapsto> hd (r @ [new_node]), last (new_node # r) \<mapsto> new_node) \<and>
    prv hp' = (prv hp)(hd (r @ [old_node]) \<mapsto> new_node, new_node \<mapsto> last (new_node # r))"
proof -
  note np = ring_hd [OF r]
  have v: "nxt hp (hd (r @ [old_node])) \<noteq> None" "nxt hp (last (old_node # r)) \<noteq> None"
    using ring_valid [OF r] by (cases r; simp)+
  from f have fv: "nxt hp new_node \<noteq> None" "new_node \<noteq> old_node" "new_node \<notin> set r"
    by (auto simp: fresh_def nxt_def deref_def)
  from r have d: "distinct r" "old_node \<notin> set r"
    by (simp_all add: ring_def)
  have P': "last (new_node # r) = (if hd (r @ [old_node]) = old_node then new_node else last (old_node # r))"
    using d by (cases r) auto
  from list_replace_eff [OF np v fv(1,2) P'] obtain hp' where
    hp': "list_replace hp old_node new_node = Some hp'"
      "nxt hp' = (nxt hp)(new_node \<mapsto> hd (r @ [old_node]), last (new_node # r) \<mapsto> new_node)"
      "prv hp' = (prv hp)(hd (r @ [old_node]) \<mapsto> new_node, new_node \<mapsto> last (new_node # r))"
    by blast
  have "ring hp' (new_node # r)"
  proof (cases "r = []")
    case True
    then show ?thesis by (simp add: ring_def linked_def hp')
  next
    case False
    from r False have c: "chain hp r"
      by (simp add: ring_def chain_Cons chain_append)
    have "chain hp' r"
    proof (rule chain_frame [OF c])
      show "\<forall>a\<in>set (butlast r). nxt hp' a = nxt hp a"
        using d fv False last_notin_butlast [of r] by (auto simp: hp' dest: in_set_butlastD)
      show "\<forall>a\<in>set (tl r). prv hp' a = prv hp a"
        using d fv False hd_notin_tl [of r] by (auto simp: hp' dest: list.set_sel(2))
    qed
    moreover have "linked hp' new_node (hd r)" "linked hp' (last r) new_node"
      using d fv False by (auto simp: linked_def hp')
    ultimately show ?thesis
      using d fv False by (simp add: ring_def chain_Cons chain_append)
  qed
  moreover have "hd (r @ [new_node]) = hd (r @ [old_node])" if "r \<noteq> []"
    using that by simp
  ultimately show ?thesis using hp' by (cases "r = []") auto
qed

lemma fresh_valid: "fresh hp ns n \<Longrightarrow> nxt hp n \<noteq> None"
  by (auto simp: fresh_def nxt_def deref_def)

lemma ring_add_hd:
  assumes r: "ring hp (h # ls)" and f: "fresh hp (h # ls) n"
  shows "\<exists>hp'. list_add hp n h = Some hp' \<and> ring hp' (h # n # ls) \<and>
    nxt hp' = (nxt hp)(n \<mapsto> hd (ls @ [h]), h \<mapsto> n) \<and>
    prv hp' = (prv hp)(hd (ls @ [h]) \<mapsto> n, n \<mapsto> h)"
proof -
  let ?N = "hd (ls @ [h])"
  note np = ring_hd [OF r]
  from np(1) obtain l where l: "deref hp h = Some l" "next l = ?N"
    by (auto simp: nxt_Some_iff)
  have v: "nxt hp h \<noteq> None" "nxt hp ?N \<noteq> None"
    using ring_valid [OF r] by (cases ls; simp)+
  from raw_list_add_eff [OF fresh_valid [OF f] v] obtain hp' where
    hp': "raw_list_add hp n h ?N = Some hp'"
      "nxt hp' = (nxt hp)(n \<mapsto> ?N, h \<mapsto> n)" "prv hp' = (prv hp)(?N \<mapsto> n, n \<mapsto> h)"
    by blast
  from r f have d: "distinct ls" "h \<notin> set ls" "n \<notin> set ls" "n \<noteq> h"
    by (auto simp: ring_def fresh_def)
  from r have c: "chain hp (ls @ [h])"
    by (simp add: ring_def chain_Cons)
  have "chain hp' (ls @ [h])"
  proof (rule chain_frame [OF c])
    show "\<forall>a\<in>set (butlast (ls @ [h])). nxt hp' a = nxt hp a"
      using d by (auto simp: hp')
    have "a \<in> set ls \<or> a = h" if "a \<in> set (tl (ls @ [h]))" for a
      using that by (cases ls) auto
    then show "\<forall>a\<in>set (tl (ls @ [h])). prv hp' a = prv hp a"
      using d hd_notin_tl [of "ls @ [h]"] by (auto simp: hp')
  qed
  moreover have "linked hp' h n" "linked hp' n ?N"
    using d by (cases ls; auto simp: linked_def hp')+
  ultimately have "ring hp' (h # n # ls)"
    using d by (simp add: ring_def chain_Cons [of hp' n])
  with l hp' show ?thesis by (simp add: list_add_def)
qed

lemma ring_add_tail_hd:
  assumes r: "ring hp (h # ls)" and f: "fresh hp (h # ls) n"
  shows "\<exists>hp'. list_add_tail hp n h = Some hp' \<and> ring hp' (h # ls @ [n]) \<and>
    nxt hp' = (nxt hp)(n \<mapsto> h, last (h # ls) \<mapsto> n) \<and>
    prv hp' = (prv hp)(h \<mapsto> n, n \<mapsto> last (h # ls))"
proof -
  let ?P = "last (h # ls)"
  note np = ring_hd [OF r]
  from np(2) obtain l where l: "deref hp h = Some l" "prev l = ?P"
    by (auto simp: prv_Some_iff)
  have v: "nxt hp ?P \<noteq> None" "nxt hp h \<noteq> None"
    using ring_valid [OF r] by simp_all
  from raw_list_add_eff [OF fresh_valid [OF f] v] obtain hp' where
    hp': "raw_list_add hp n ?P h = Some hp'"
      "nxt hp' = (nxt hp)(n \<mapsto> h, ?P \<mapsto> n)" "prv hp' = (prv hp)(h \<mapsto> n, n \<mapsto> ?P)"
    by blast
  from r f have d: "distinct (h # ls)" "n \<notin> set (h # ls)"
    by (auto simp: ring_def fresh_def)
  from r have c: "chain hp (h # ls)"
    using chain_append [of "h # ls" "[h]" hp] by (simp add: ring_def)
  have "chain hp' (h # ls)"
  proof (rule chain_frame [OF c])
    show "\<forall>a\<in>set (butlast (h # ls)). nxt hp' a = nxt hp a"
      using d last_notin_butlast [of "h # ls"] by (auto simp: hp' dest: in_set_butlastD)
    show "\<forall>a\<in>set (tl (h # ls)). prv hp' a = prv hp a"
      using d by (auto simp: hp')
  qed
  moreover have "linked hp' ?P n" "linked hp' n h"
    using d by (auto simp: linked_def hp')
  ultimately have "chain hp' ((h # ls) @ [n, h])"
    unfolding chain_snoc using chain_append [of "h # ls" "[n]" hp'] by simp
  then have "ring hp' (h # ls @ [n])"
    using d by (auto simp: ring_def)
  with l hp' show ?thesis by (simp add: list_add_tail_def)
qed

lemma ring_init:
  assumes "nxt hp n \<noteq> None"
  shows "\<exists>hp'. INIT_LIST_HEAD hp n = Some hp' \<and> ring hp' [n] \<and>
    nxt hp' = (nxt hp)(n \<mapsto> n) \<and> prv hp' = (prv hp)(n \<mapsto> n)"
  using INIT_LIST_HEAD_eff [OF assms] by (auto simp: ring_def linked_def)

lemma ring_frame:
  assumes "ring hp ns" "\<forall>a\<in>set ns. nxt hp' a = nxt hp a" "\<forall>a\<in>set ns. prv hp' a = prv hp a"
  shows "ring hp' ns"
proof -
  from assms(1) have c: "chain hp (ns @ [hd ns])" and ne: "ns \<noteq> []"
    by (simp_all add: ring_def)
  have "chain hp' (ns @ [hd ns])"
  proof (rule chain_frame [OF c])
    show "\<forall>a\<in>set (butlast (ns @ [hd ns])). nxt hp' a = nxt hp a"
      using assms(2) by (simp add: butlast_append)
    have "set (tl (ns @ [hd ns])) \<subseteq> set ns"
      using ne by (cases ns) auto
    then show "\<forall>a\<in>set (tl (ns @ [hd ns])). prv hp' a = prv hp a"
      using assms(3) by blast
  qed
  with assms(1) show ?thesis by (simp add: ring_def)
qed

lemma ring_link_inv:
  assumes "ring hp ns" "x \<in> set ns"
  shows "link_inv hp x"
proof -
  from assms(2) obtain pre post where "ns = pre @ x # post"
    by (auto simp: in_set_conv_decomp)
  with assms(1) have r: "ring hp (x # post @ pre)"
    using ring_swap [of hp pre "x # post"] by simp
  let ?r = "post @ pre"
  from r have c: "chain hp ((x # ?r) @ [x])" by (simp add: ring_def)
  then have "linked hp x (hd (?r @ [x]))"
    by (simp add: chain_Cons)
  moreover from c have "linked hp (last (x # ?r)) x"
    by (subst (asm) chain_append) simp_all
  ultimately show ?thesis
    by (auto simp: link_inv_def linked_def nxt_Some_iff prv_Some_iff)
qed

lemma ring_del:
  assumes r: "ring hp (pre @ n # post)"
  shows "\<exists>hp'. list_del hp n = Some hp' \<and> (pre @ post \<noteq> [] \<longrightarrow> ring hp' (pre @ post)) \<and>
    nxt hp' = (nxt hp)(last (n # post @ pre) \<mapsto> hd (post @ pre @ [n]), n \<mapsto> LIST_POISON1) \<and>
    prv hp' = (prv hp)(hd (post @ pre @ [n]) \<mapsto> last (n # post @ pre), n \<mapsto> LIST_POISON2)"
proof -
  from r have r': "ring hp (n # post @ pre)"
    using ring_swap [of hp pre "n # post"] by simp
  show ?thesis
  proof (cases "post @ pre = []")
    case True
    with r' have np: "nxt hp n = Some n" "prv hp n = Some n"
      using ring_hd [of hp n "[]"] by simp_all
    then have v: "nxt hp n \<noteq> None" by simp
    from list_del_eff [OF np v v] True show ?thesis by simp
  next
    case False
    from ring_del_hd [OF r' False] obtain hp' where
      hp': "list_del hp n = Some hp'" "ring hp' (post @ pre)"
        "nxt hp' = (nxt hp)(last (post @ pre) \<mapsto> hd (post @ pre), n \<mapsto> LIST_POISON1)"
        "prv hp' = (prv hp)(hd (post @ pre) \<mapsto> last (post @ pre), n \<mapsto> LIST_POISON2)"
      by blast
    from hp'(2) have "ring hp' (pre @ post)" by (rule ring_swap)
    moreover have "hd (post @ pre @ [n]) = hd (post @ pre)" "last (n # post @ pre) = last (post @ pre)"
      using False by (auto simp: hd_append)
    ultimately show ?thesis using hp' by simp
  qed
qed

lemma fresh_perm: "set ns = set ms \<Longrightarrow> fresh hp ns n = fresh hp ms n"
  by (simp add: fresh_def)

lemma ring_replace:
  assumes r: "ring hp (pre @ old_node # post)" and f: "fresh hp (pre @ old_node # post) new_node"
  shows "\<exists>hp'. list_replace hp old_node new_node = Some hp' \<and> ring hp' (pre @ new_node # post) \<and>
    (\<forall>a. a \<noteq> new_node \<and> a \<notin> set (pre @ old_node # post) \<longrightarrow>
       nxt hp' a = nxt hp a \<and> prv hp' a = prv hp a) \<and>
    nxt hp' old_node = nxt hp old_node"
proof -
  from r have r': "ring hp (old_node # post @ pre)"
    using ring_swap [of hp pre "old_node # post"] by simp
  from f have f': "fresh hp (old_node # post @ pre) new_node"
    by (auto simp: fresh_def)
  from r' have d: "distinct (post @ pre)" "old_node \<notin> set (post @ pre)"
    by (simp_all add: ring_def)
  from ring_replace_hd [OF r' f'] obtain hp' where
    hp': "list_replace hp old_node new_node = Some hp'" "ring hp' (new_node # post @ pre)"
      "nxt hp' = (nxt hp)(new_node \<mapsto> hd ((post @ pre) @ [new_node]),
         last (new_node # post @ pre) \<mapsto> new_node)"
      "prv hp' = (prv hp)(hd ((post @ pre) @ [old_node]) \<mapsto> new_node,
         new_node \<mapsto> last (new_node # post @ pre))"
    by blast
  from hp'(2) have "ring hp' (pre @ new_node # post)"
    using ring_swap [of hp' "new_node # post" pre] by simp
  moreover have "last (new_node # post @ pre) \<in> set (new_node # post @ pre)"
    by (rule last_in_set) simp
  moreover have "hd ((post @ pre) @ [old_node]) \<in> set (old_node # post @ pre)"
    using hd_in_set [of "(post @ pre) @ [old_node]"] by simp
  moreover have "last (new_node # post @ pre) \<noteq> old_node"
    using d f' last_in_set [of "post @ pre"] by (auto simp: fresh_def)
  ultimately show ?thesis using hp' f' by (auto simp: fresh_def)
qed

lemma loop_visit:
  "chain hp (xs @ [h]) \<Longrightarrow> h \<notin> set xs \<Longrightarrow>
   list_for_each_loop h visit (hd (xs @ [h])) (hp, vis) = Some (hp, vis @ xs)"
proof (induction xs arbitrary: vis)
  case Nil
  show ?case by (subst list_for_each_loop.simps) simp
next
  case (Cons a r)
  from Cons.prems have "nxt hp a = Some (hd (r @ [h]))" "chain hp (r @ [h])"
    by (simp_all add: chain_Cons linked_def)
  then obtain l where l: "deref hp a = Some l" "next l = hd (r @ [h])"
    by (auto simp: nxt_Some_iff)
  have "list_for_each_loop h visit (hd (r @ [h])) (hp, vis @ [a]) = Some (hp, (vis @ [a]) @ r)"
    using Cons.prems \<open>chain hp (r @ [h])\<close> by (intro Cons.IH) simp_all
  then show ?case
    using Cons.prems l by (subst list_for_each_loop.simps) (auto simp: visit_def)
qed

lemma ring_traversal:
  assumes "ring hp (h # ls)"
  shows "traversal hp h = Some ls"
proof -
  from ring_hd(1) [OF assms] obtain l where l: "deref hp h = Some l" "next l = hd (ls @ [h])"
    by (auto simp: nxt_Some_iff)
  from assms have "chain hp (ls @ [h])" "h \<notin> set ls"
    by (simp_all add: ring_def chain_Cons)
  from loop_visit [OF this, of "[]"] l show ?thesis
    by (simp add: traversal_def list_for_each_def)
qed

lemma ring_snd:
  assumes "ring hp (h # ls)"
  shows "nxt hp (hd (ls @ [h])) = Some (hd (tl ls @ [h]))"
proof (cases ls)
  case Nil
  with ring_hd(1) [OF assms] show ?thesis by simp
next
  case (Cons b r)
  with assms show ?thesis
    by (simp add: ring_def chain_Cons linked_def)
qed

lemma safe_loop_del:
  "ring hp (h # ls) \<Longrightarrow>
   \<exists>hp'. list_for_each_entry_safe_loop h k (visit_del k)
       (container_of (hd (ls @ [h])) k) (container_of (hd (tl ls @ [h])) k) (hp, vis)
     = Some (hp', vis @ map (\<lambda>l. container_of l k) ls) \<and> ring hp' [h]"
proof (induction ls arbitrary: hp vis)
  case Nil
  then show ?case
    by (subst list_for_each_entry_safe_loop.simps)
      (simp add: member_addr_def container_of_def)
next
  case (Cons a r)
  from Cons.prems have ah: "a \<noteq> h" by (auto simp: ring_def)
  from ring_del [of hp "[h]" a r] Cons.prems obtain hp1 where
    hp1: "list_del hp a = Some hp1" "ring hp1 (h # r)" by auto
  from ring_snd [OF hp1(2)] obtain l where
    l: "deref hp1 (hd (r @ [h])) = Some l" "next l = hd (tl r @ [h])"
    by (auto simp: nxt_Some_iff)
  from Cons.IH [OF hp1(2), of "vis @ [container_of a k]"] obtain hp' where
    hp': "list_for_each_entry_safe_loop h k (visit_del k)
       (container_of (hd (r @ [h])) k) (container_of (hd (tl r @ [h])) k)
       (hp1, vis @ [container_of a k])
     = Some (hp', (vis @ [container_of a k]) @ map (\<lambda>l. container_of l k) r)" "ring hp' [h]"
    by blast
  have m: "member_addr (container_of x k) k = x" for x
    by (simp add: member_addr_def container_of_def)
  show ?case
    using ah hp1 l hp'
    by (subst list_for_each_entry_safe_loop.simps)
      (simp add: m visit_del_def list_next_entry_def list_entry_def)
qed

lemma ring_distinct: "ring hp ns \<Longrightarrow> distinct ns"
  by (simp add: ring_def)


lemma inv_add:
  assumes "ring hp (pre @ x # post)" "fresh hp (pre @ x # post) n"
  shows "\<exists>hp'. list_add hp n x = Some hp' \<and> ring hp' (pre @ x # n # post) \<and>
    nxt hp' x = Some n"
proof -
  from assms have "ring hp (x # post @ pre)" "fresh hp (x # post @ pre) n"
    using ring_swap [of hp pre "x # post"] by (auto simp: fresh_def)
  from ring_add_hd [OF this] obtain hp' where
    hp': "list_add hp n x = Some hp'" "ring hp' (x # n # post @ pre)"
      "nxt hp' = (nxt hp)(n \<mapsto> hd ((post @ pre) @ [x]), x \<mapsto> n)" by blast
  from hp'(2) have "ring hp' (pre @ x # n # post)"
    using ring_swap [of hp' "x # n # post" pre] by simp
  with hp' show ?thesis by simp
qed

lemma inv_add_tail:
  assumes "ring hp (pre @ x # post)" "fresh hp (pre @ x # post) n"
  shows "\<exists>hp'. list_add_tail hp n x = Some hp' \<and> ring hp' (pre @ n # x # post) \<and>
    prv hp' x = Some n"
proof -
  from assms have "ring hp (x # post @ pre)" "fresh hp (x # post @ pre) n"
    using ring_swap [of hp pre "x # post"] by (auto simp: fresh_def)
  from ring_add_tail_hd [OF this] obtain hp' where
    hp': "list_add_tail hp n x = Some hp'" "ring hp' (x # (post @ pre) @ [n])"
      "prv hp' = (prv hp)(x \<mapsto> n, n \<mapsto> last (x # post @ pre))" by blast
  from hp'(2) have "ring hp' (pre @ n # x # post)"
    using ring_swap [of hp' "x # post" "pre @ [n]"] by simp
  moreover from assms(2) have "n \<noteq> x" by (auto simp: fresh_def)
  ultimately show ?thesis using hp' by simp
qed

lemma inv_replace_init:
  assumes r: "ring hp (pre @ x # post)" and f: "fresh hp (pre @ x # post) n"
  shows "\<exists>hp'. list_replace_init hp x n = Some hp' \<and> ring hp' (pre @ n # post) \<and>
    ring hp' [x]"
proof -
  from ring_replace [OF r f] obtain hp1 where
    hp1: "list_replace hp x n = Some hp1" "ring hp1 (pre @ n # post)"
      "nxt hp1 x = nxt hp x" by blast
  have "nxt hp x \<noteq> None"
    using ring_valid [OF r] by simp
  with hp1 have "nxt hp1 x \<noteq> None" by simp
  from ring_init [OF this] obtain hp2 where
    hp2: "INIT_LIST_HEAD hp1 x = Some hp2" "ring hp2 [x]"
      "nxt hp2 = (nxt hp1)(x \<mapsto> x)" "prv hp2 = (prv hp1)(x \<mapsto> x)" by blast
  from r f have "x \<notin> set (pre @ n # post)"
    by (auto simp: ring_def fresh_def)
  then have "ring hp2 (pre @ n # post)"
    by (intro ring_frame [OF hp1(2)]) (auto simp: hp2)
  with hp1 hp2 show ?thesis by (simp add: list_replace_init_def)
qed

lemma ring_del_at:
  assumes r: "ring hp (pre @ n # post)" and e: "deref hp n = Some e"
  shows "\<exists>hp'. list_del hp n = Some hp' \<and>
    (pre @ post \<noteq> [] \<longrightarrow> ring hp' (pre @ post) \<and> next e \<noteq> n \<and> prev e \<noteq> n) \<and>
    nxt hp' = (nxt hp)(prev e \<mapsto> next e, n \<mapsto> LIST_POISON1) \<and>
    prv hp' = (prv hp)(next e \<mapsto> prev e, n \<mapsto> LIST_POISON2)"
proof -
  from r have r': "ring hp (n # post @ pre)"
    using ring_swap [of hp pre "n # post"] by simp
  from ring_hd [OF r'] e have ne: "next e = hd (post @ pre @ [n])" "prev e = last (n # post @ pre)"
    by (simp_all add: nxt_def prv_def)
  from r' have d: "n \<notin> set (post @ pre)"
    by (simp add: ring_def)
  have "next e \<noteq> n \<and> prev e \<noteq> n" if "pre @ post \<noteq> []"
  proof -
    from that have "post @ pre \<noteq> []" by auto
    then have "hd (post @ pre @ [n]) \<in> set (post @ pre)" "last (n # post @ pre) \<in> set (post @ pre)"
      using hd_in_set [of "post @ pre"] last_in_set [of "post @ pre"]
      by (auto simp: hd_append)
    with d ne show ?thesis by metis
  qed
  with ring_del [OF r] ne show ?thesis by auto
qed

lemma ring_isolated: "ring hp [h] \<longleftrightarrow> nxt hp h = Some h \<and> prv hp h = Some h"
  by (simp add: ring_def linked_def)

lemma ring_neighbours:
  assumes "ring hp ns" "n \<in> set ns" "deref hp n = Some e"
  shows "prv hp (next e) = Some n" "nxt hp (prev e) = Some n"
  using ring_link_inv [OF assms(1,2)] assms(3) by (simp_all add: link_inv_def)

lemma ring_self_loop:
  assumes r: "ring hp ns" and n: "n \<in> set ns" and e: "deref hp n = Some e"
  shows "next e = n \<longleftrightarrow> prev e = n"
proof -
  from n obtain pre post where ns: "ns = pre @ n # post"
    using split_list [of n ns] by blast
  show ?thesis
  proof (cases "pre @ post = []")
    case True
    with r ns e show ?thesis
      by (auto simp: ring_isolated nxt_def prv_def)
  next
    case False
    with ring_del_at [OF r [unfolded ns] e] show ?thesis by blast
  qed
qed

lemmas ex_simps = ring_def linked_def nxt_def prv_def deref_def NULL_def fresh_def

lemmas op_simps = list_del_def raw_list_del_def set_next_def set_prev_def
  LIST_POISON1_def LIST_POISON2_def

section \<open>Properties\<close>



text \<open>
  C2, as stated, fails. Removing the entry \<open>0x20\<close> from the ring of two Links leaves
  \<^verbatim>\<open>NULL\<close> in both of its fields: the poison values are not distinct from null.
\<close>

theorem list_del_poison_counterexample:
  "ring ex_pair [0x10, 0x20] \<and> list_del ex_pair 0x20 \<noteq> None \<and>
   nxt (the (list_del ex_pair 0x20)) 0x20 = Some NULL \<and>
   prv (the (list_del ex_pair 0x20)) 0x20 = Some NULL"
  by (simp add: ex_simps op_simps ex_pair_def)

text \<open>
  C2, amended. For every Link \<open>n\<close> of a well-formed ring, \<^verbatim>\<open>list_del\<close> returns and
  leaves \<^verbatim>\<open>LIST_POISON1\<close> in \<open>n\<close>'s next field and \<^verbatim>\<open>LIST_POISON2\<close> in its prev
  field; as compiled, both poison values are \<^verbatim>\<open>NULL\<close>.
\<close>

theorem list_del_poisons:
  assumes "ring hp ns" "n \<in> set ns"
  shows "\<exists>hp'. list_del hp n = Some hp' \<and>
    nxt hp' n = Some LIST_POISON1 \<and> prv hp' n = Some LIST_POISON2 \<and>
    LIST_POISON1 = (NULL :: 'a::len word) \<and> LIST_POISON2 = (NULL :: 'a word)"
proof -
  from assms(2) obtain pre post where ns: "ns = pre @ n # post"
    by (auto simp: in_set_conv_decomp)
  from ring_del [OF assms(1) [unfolded ns]] show ?thesis
    by (auto simp: LIST_POISON1_def LIST_POISON2_def)
qed

text \<open>The amended statement at the last entry of the ring of three Links.\<close>

theorem list_del_poisons_witness:
  "ring ex_ring [0x10, 0x20, 0x30] \<and> 0x30 \<in> set [0x10, 0x20, 0x30 :: 64 word] \<and>
   (\<exists>hp'. list_del ex_ring 0x30 = Some hp' \<and>
      nxt hp' 0x30 = Some LIST_POISON1 \<and> prv hp' 0x30 = Some LIST_POISON2 \<and>
      LIST_POISON1 = (NULL :: 64 word) \<and> LIST_POISON2 = (NULL :: 64 word))"
proof -
  have r: "ring ex_ring [0x10, 0x20, 0x30]"
    by (simp add: ex_simps ex_ring_def)
  have x: "0x30 \<in> set [0x10, 0x20, 0x30 :: 64 word]"
    by simp
  from list_del_poisons [OF r x] r x show ?thesis
    by blast
qed

text \<open>
  C3. On a well-formed ring with head \<open>h\<close> and the Links \<open>ls\<close> of its \<open>N\<close> entries,
  \<^verbatim>\<open>list_for_each_entry_safe\<close> with a body that removes the entry it is given returns.
  The entries it visited are the entries of \<open>ls\<close> in ring order: \<open>N\<close> visits, no entry
  twice, none left out. Afterwards \<^verbatim>\<open>list_empty\<close> holds of the head.
\<close>

theorem safe_traversal_removes_all:
  assumes r: "ring hp (h # ls)"
  shows "\<exists>hp'. list_for_each_entry_safe h k (visit_del k) (hp, []) = Some (hp', entries k ls) \<and>
    length (entries k ls) = length ls \<and> distinct (entries k ls) \<and>
    list_empty hp' h = Some True"
proof -
  have m: "member_addr (container_of x k) k = x" for x
    by (simp add: member_addr_def container_of_def)
  from ring_hd(1) [OF r] obtain l where l: "deref hp h = Some l" "next l = hd (ls @ [h])"
    by (auto simp: nxt_Some_iff)
  from ring_snd [OF r] obtain l' where
    l': "deref hp (hd (ls @ [h])) = Some l'" "next l' = hd (tl ls @ [h])"
    by (auto simp: nxt_Some_iff)
  from safe_loop_del [OF r, of k "[]"] obtain hp' where
    hp': "list_for_each_entry_safe_loop h k (visit_del k)
       (container_of (hd (ls @ [h])) k) (container_of (hd (tl ls @ [h])) k) (hp, [])
     = Some (hp', map (\<lambda>l. container_of l k) ls)" "ring hp' [h]"
    by auto
  from hp'(2) have "list_empty hp' h = Some True"
    by (auto simp: ring_isolated list_empty_def nxt_Some_iff)
  moreover have "inj_on (\<lambda>l. container_of l k) (set ls)"
    by (rule inj_onI) (simp add: container_of_def)
  then have "distinct (entries k ls)"
    using r by (simp add: entries_def list_entry_def distinct_map ring_def)
  ultimately show ?thesis
    using l l' hp'(1)
    by (simp add: list_for_each_entry_safe_def list_first_entry_def list_next_entry_def
        list_entry_def entries_def m)
qed

text \<open>The traversal of the ring of three Links, with the Link field at offset 8, visits the
  entries at \<open>0x18\<close> and \<open>0x28\<close>.\<close>

theorem safe_traversal_removes_all_witness:
  "ring ex_ring [0x10, 0x20, 0x30] \<and>
   (\<exists>hp'. list_for_each_entry_safe 0x10 8 (visit_del 8) (ex_ring, []) = Some (hp', [0x18, 0x28]) \<and>
      length [0x18, 0x28 :: 64 word] = length [0x20, 0x30 :: 64 word] \<and>
      distinct [0x18, 0x28 :: 64 word] \<and> list_empty hp' 0x10 = Some True)"
proof -
  have r: "ring ex_ring [0x10, 0x20, 0x30]"
    by (simp add: ex_simps ex_ring_def)
  have e: "entries 8 [0x20, 0x30 :: 64 word] = [0x18, 0x28]"
    by (simp add: entries_def list_entry_def container_of_def)
  from safe_traversal_removes_all [OF r, of 8] r show ?thesis
    unfolding e by blast
qed

text \<open>
  C4. Let \<open>n\<close> be the Link of an entry in a well-formed ring with head \<open>h\<close>, and
  \<open>e\<close> the contents of \<open>n\<close> before the call. After \<^verbatim>\<open>list_del\<close> of \<open>n\<close> the
  former neighbours are adjacent: the next field of \<open>prev e\<close> is \<open>next e\<close> and the prev
  field of \<open>next e\<close> is \<open>prev e\<close>. The forward traversal from \<open>h\<close> visited \<open>ls\<close>
  before and visits \<open>ls\<close> without \<open>n\<close> after, one Link fewer. Any Link of a ring can
  stand for \<open>h\<close>, so this covers every Link that has a neighbour other than itself.
\<close>

theorem list_del_neighbours:
  assumes r: "ring hp (h # ls)" and n: "n \<in> set ls" and e: "deref hp n = Some e"
  shows "\<exists>hp'. list_del hp n = Some hp' \<and>
    nxt hp' (prev e) = Some (next e) \<and> prv hp' (next e) = Some (prev e) \<and>
    traversal hp h = Some ls \<and> traversal hp' h = Some (remove1 n ls) \<and>
    Suc (length (remove1 n ls)) = length ls"
proof -
  from n obtain pre post where ls: "ls = pre @ n # post"
    using split_list [of n ls] by blast
  from r have r': "ring hp ((h # pre) @ n # post)"
    by (simp add: ls)
  from ring_del_at [OF r' e] obtain hp' where
    hp': "list_del hp n = Some hp'" "ring hp' (h # pre @ post)" "next e \<noteq> n" "prev e \<noteq> n"
      "nxt hp' = (nxt hp)(prev e \<mapsto> next e, n \<mapsto> LIST_POISON1)"
      "prv hp' = (prv hp)(next e \<mapsto> prev e, n \<mapsto> LIST_POISON2)" by auto
  from r have "distinct ls"
    by (simp add: ring_def)
  then have rm: "remove1 n ls = pre @ post"
    by (simp add: ls remove1_append)
  from hp'(2) have "traversal hp' h = Some (pre @ post)"
    by (rule ring_traversal)
  with rm ring_traversal [OF r] hp' show ?thesis
    by (simp add: ls)
qed

text \<open>Removing the first of the two entries of the ring of three Links.\<close>

theorem list_del_neighbours_witness:
  "ring ex_ring [0x10, 0x20, 0x30] \<and> 0x20 \<in> set [0x20, 0x30 :: 64 word] \<and>
   deref ex_ring 0x20 = Some \<lparr>next = 0x30, prev = 0x10\<rparr> \<and>
   (\<exists>hp'. list_del ex_ring 0x20 = Some hp' \<and>
      nxt hp' 0x10 = Some 0x30 \<and> prv hp' 0x30 = Some 0x10 \<and>
      traversal ex_ring 0x10 = Some [0x20, 0x30] \<and> traversal hp' 0x10 = Some [0x30])"
proof -
  have r: "ring ex_ring [0x10, 0x20, 0x30]"
    by (simp add: ex_simps ex_ring_def)
  have x: "0x20 \<in> set [0x20, 0x30 :: 64 word]"
    by simp
  have e: "deref ex_ring 0x20 = Some \<lparr>next = 0x30, prev = 0x10\<rparr>"
    by (simp add: ex_simps ex_ring_def)
  from list_del_neighbours [OF r x e] r e show ?thesis
    by auto
qed

text \<open>
  C5. Let \<open>ls ! i\<close> be the Link of an entry in a well-formed ring with head \<open>h\<close>, and
  \<open>new_node\<close> a fresh Link. After \<^verbatim>\<open>list_replace\<close> the forward traversal from
  \<open>h\<close> is the one before the call with \<open>new_node\<close> at position \<open>i\<close> and nothing else
  changed. The same holds after \<^verbatim>\<open>list_replace_init\<close>, and then the replaced Link is
  isolated: both of its fields point to itself.
\<close>

theorem list_replace_traversal:
  assumes r: "ring hp (h # ls)" and i: "i < length ls" and f: "fresh hp (h # ls) new_node"
  shows "traversal hp h = Some ls \<and>
    (\<exists>hp'. list_replace hp (ls ! i) new_node = Some hp' \<and>
       traversal hp' h = Some (ls[i := new_node])) \<and>
    (\<exists>hp'. list_replace_init hp (ls ! i) new_node = Some hp' \<and>
       traversal hp' h = Some (ls[i := new_node]) \<and>
       nxt hp' (ls ! i) = Some (ls ! i) \<and> prv hp' (ls ! i) = Some (ls ! i))"
proof -
  let ?pre = "h # take i ls" and ?post = "drop (Suc i) ls"
  from i have ls: "h # ls = ?pre @ ls ! i # ?post"
    by (simp add: id_take_nth_drop [symmetric])
  from i have upd: "?pre @ new_node # ?post = h # ls[i := new_node]"
    by (simp add: upd_conv_take_nth_drop)
  note r' = r [unfolded ls] and f' = f [unfolded ls]
  from ring_replace [OF r' f'] obtain hp1 where
    "list_replace hp (ls ! i) new_node = Some hp1" "ring hp1 (?pre @ new_node # ?post)"
    by blast
  then have 1: "\<exists>hp'. list_replace hp (ls ! i) new_node = Some hp' \<and>
       traversal hp' h = Some (ls[i := new_node])"
    unfolding upd by (auto intro: ring_traversal)
  from inv_replace_init [OF r' f'] obtain hp2 where
    "list_replace_init hp (ls ! i) new_node = Some hp2" "ring hp2 (?pre @ new_node # ?post)"
    "ring hp2 [ls ! i]" by blast
  then have 2: "\<exists>hp'. list_replace_init hp (ls ! i) new_node = Some hp' \<and>
       traversal hp' h = Some (ls[i := new_node]) \<and>
       nxt hp' (ls ! i) = Some (ls ! i) \<and> prv hp' (ls ! i) = Some (ls ! i)"
    unfolding upd ring_isolated by (auto intro: ring_traversal)
  from 1 2 ring_traversal [OF r] show ?thesis by blast
qed

text \<open>Replacing the second entry of the ring of three Links by the unlinked Link.\<close>

theorem list_replace_traversal_witness:
  "ring ex_ring [0x10, 0x20, 0x30] \<and> 1 < length [0x20, 0x30 :: 64 word] \<and>
   fresh ex_ring [0x10, 0x20, 0x30] 0x40 \<and>
   traversal ex_ring 0x10 = Some [0x20, 0x30] \<and>
   (\<exists>hp'. list_replace ex_ring 0x30 0x40 = Some hp' \<and> traversal hp' 0x10 = Some [0x20, 0x40]) \<and>
   (\<exists>hp'. list_replace_init ex_ring 0x30 0x40 = Some hp' \<and>
      traversal hp' 0x10 = Some [0x20, 0x40] \<and>
      nxt hp' 0x30 = Some 0x30 \<and> prv hp' 0x30 = Some 0x30)"
proof -
  have r: "ring ex_ring [0x10, 0x20, 0x30]" and f: "fresh ex_ring [0x10, 0x20, 0x30] 0x40"
    by (simp_all add: ex_simps ex_ring_def)
  have i: "1 < length [0x20, 0x30 :: 64 word]"
    by simp
  from list_replace_traversal [OF r i f] r i f show ?thesis
    by simp
qed

text \<open>
  C6. For a well-formed ring with head \<open>h\<close> and a fresh Link \<open>n\<close>, the next field of
  \<open>h\<close> is \<open>n\<close> after \<^verbatim>\<open>list_add\<close>, and the prev field of \<open>h\<close> is \<open>n\<close> after
  \<^verbatim>\<open>list_add_tail\<close>.
\<close>

theorem add_front_back_reads:
  assumes "ring hp (h # ls)" "fresh hp (h # ls) n"
  shows "(\<exists>hp'. list_add hp n h = Some hp' \<and> nxt hp' h = Some n) \<and>
    (\<exists>hp'. list_add_tail hp n h = Some hp' \<and> prv hp' h = Some n)"
  using inv_add [of hp "[]" h ls n] inv_add_tail [of hp "[]" h ls n] assms by auto

text \<open>Adding the unlinked Link at the front and at the back of the ring of three Links.\<close>

theorem add_front_back_reads_witness:
  "ring ex_ring [0x10, 0x20, 0x30] \<and> fresh ex_ring [0x10, 0x20, 0x30] 0x40 \<and>
   (\<exists>hp'. list_add ex_ring 0x40 0x10 = Some hp' \<and> nxt hp' 0x10 = Some 0x40) \<and>
   (\<exists>hp'. list_add_tail ex_ring 0x40 0x10 = Some hp' \<and> prv hp' 0x10 = Some 0x40)"
proof -
  have r: "ring ex_ring [0x10, 0x20, 0x30]" and f: "fresh ex_ring [0x10, 0x20, 0x30] 0x40"
    by (simp_all add: ex_simps ex_ring_def)
  from add_front_back_reads [OF r f] r f show ?thesis
    by blast
qed

text \<open>
  C7. For an isolated head \<open>h\<close>, whose two fields point to itself, and a fresh Link
  \<open>n\<close>, \<^verbatim>\<open>list_add_tail\<close> of \<open>n\<close> followed by \<^verbatim>\<open>list_del\<close> of \<open>n\<close> leaves
  both fields of \<open>h\<close> pointing to \<open>h\<close> again: the list is empty.
\<close>

theorem add_tail_del_round_trip:
  assumes "nxt hp h = Some h" "prv hp h = Some h" "fresh hp [h] n"
  shows "\<exists>hp1 hp2. list_add_tail hp n h = Some hp1 \<and> list_del hp1 n = Some hp2 \<and>
    nxt hp2 h = Some h \<and> prv hp2 h = Some h \<and> list_empty hp2 h = Some True"
proof -
  from assms have r: "ring hp [h]" by (simp add: ring_isolated)
  from ring_add_tail_hd [OF r assms(3)] obtain hp1 where
    hp1: "list_add_tail hp n h = Some hp1" "ring hp1 [h, n]" by auto
  from ring_del [of hp1 "[h]" n "[]"] hp1 obtain hp2 where
    hp2: "list_del hp1 n = Some hp2" "ring hp2 [h]" by auto
  then have "nxt hp2 h = Some h" "prv hp2 h = Some h"
    by (simp_all add: ring_isolated)
  moreover from this have "list_empty hp2 h = Some True"
    by (auto simp: list_empty_def nxt_Some_iff)
  ultimately show ?thesis using hp1 hp2 by blast
qed

text \<open>The round trip on the empty head at \<open>0x10\<close>.\<close>

theorem add_tail_del_round_trip_witness:
  "nxt ex_empty 0x10 = Some 0x10 \<and> prv ex_empty 0x10 = Some 0x10 \<and> fresh ex_empty [0x10] 0x20 \<and>
   (\<exists>hp1 hp2. list_add_tail ex_empty 0x20 0x10 = Some hp1 \<and> list_del hp1 0x20 = Some hp2 \<and>
      nxt hp2 0x10 = Some 0x10 \<and> prv hp2 0x10 = Some 0x10 \<and> list_empty hp2 0x10 = Some True)"
proof -
  have h: "nxt ex_empty 0x10 = Some 0x10" "prv ex_empty 0x10 = Some 0x10"
    "fresh ex_empty [0x10] 0x20"
    by (simp_all add: ex_simps ex_empty_def)
  from add_tail_del_round_trip [OF h] h show ?thesis
    by blast
qed

text \<open>
  C8. Entry recovery is a round trip: subtracting the offset of the Link field from the
  address of the field and adding it back gives the address of the field again. Neither
  step takes the memory as an argument, so neither reads it.
\<close>

theorem container_of_round_trip:
  "member_addr (container_of p k) k = p \<and> member_addr (list_entry p k) k = p"
  by (simp add: member_addr_def container_of_def list_entry_def)

text \<open>
  C9, as stated, fails. In the ring of two Links the predecessor of the entry \<open>0x20\<close>
  is the head \<open>0x10\<close>, which is its successor too. The prev field of the head is
  \<open>0x20\<close> before \<^verbatim>\<open>list_del\<close> of the entry and \<open>0x10\<close> after: the prev field of the
  predecessor is not unchanged.
\<close>

theorem list_del_frame_counterexample:
  "ring ex_pair [0x10, 0x20] \<and> prv ex_pair 0x20 = Some 0x10 \<and> prv ex_pair 0x10 = Some 0x20 \<and>
   list_del ex_pair 0x20 \<noteq> None \<and> prv (the (list_del ex_pair 0x20)) 0x10 = Some 0x10"
  by (simp add: ex_simps op_simps ex_pair_def)

text \<open>
  C9, amended. Let \<open>n\<close> be a Link of a well-formed ring and \<open>e\<close> its contents before
  the call. \<^verbatim>\<open>list_del\<close> of \<open>n\<close> returns; it leaves the two poison values in \<open>n\<close>;
  every Link other than \<open>n\<close>, its predecessor \<open>prev e\<close> and its successor \<open>next e\<close>
  is unchanged; the next field of the predecessor becomes \<open>next e\<close> and the prev field of
  the successor becomes \<open>prev e\<close>, when these are not \<open>n\<close> itself; and when predecessor
  and successor are two different Links, the prev field of the predecessor and the next
  field of the successor are unchanged.
\<close>

theorem list_del_frame:
  assumes r: "ring hp ns" and n: "n \<in> set ns" and e: "deref hp n = Some e"
  shows "\<exists>hp'. list_del hp n = Some hp' \<and>
    hp' n = Some \<lparr>next = LIST_POISON1, prev = LIST_POISON2\<rparr> \<and>
    (\<forall>x. x \<noteq> n \<and> x \<noteq> prev e \<and> x \<noteq> next e \<longrightarrow> hp' x = hp x) \<and>
    (prev e \<noteq> n \<longrightarrow> nxt hp' (prev e) = Some (next e)) \<and>
    (next e \<noteq> n \<longrightarrow> prv hp' (next e) = Some (prev e)) \<and>
    (prev e \<noteq> next e \<longrightarrow>
       prv hp' (prev e) = prv hp (prev e) \<and> nxt hp' (next e) = nxt hp (next e))"
proof -
  from ring_neighbours [OF r n e] obtain ln lp where
    l: "deref hp (next e) = Some ln" "deref hp (prev e) = Some lp"
    by (auto simp: nxt_Some_iff prv_Some_iff)
  with e have nn: "n \<noteq> NULL" "next e \<noteq> NULL" "prev e \<noteq> NULL"
    and h: "hp n = Some e" "hp (next e) = Some ln" "hp (prev e) = Some lp"
    by (auto simp: deref_def split: if_splits)
  note defs = list_del_def raw_list_del_def set_next_def set_prev_def deref_def nxt_def prv_def
  show ?thesis
  proof (cases "next e = n")
    case True
    with ring_self_loop [OF r n e] have "prev e = n" by simp
    with True nn h show ?thesis by (simp add: defs)
  next
    case False
    with ring_self_loop [OF r n e] have "prev e \<noteq> n" by simp
    with False nn h show ?thesis by (auto simp: defs)
  qed
qed

text \<open>The amended statement at the first entry of the ring of three Links, whose neighbours
  are the head and the second entry.\<close>

theorem list_del_frame_witness:
  "ring ex_ring [0x10, 0x20, 0x30] \<and> 0x20 \<in> set [0x10, 0x20, 0x30 :: 64 word] \<and>
   deref ex_ring 0x20 = Some \<lparr>next = 0x30, prev = 0x10\<rparr> \<and>
   (\<exists>hp'. list_del ex_ring 0x20 = Some hp' \<and>
      hp' 0x20 = Some \<lparr>next = LIST_POISON1, prev = LIST_POISON2\<rparr> \<and>
      (\<forall>x. x \<noteq> 0x20 \<and> x \<noteq> 0x10 \<and> x \<noteq> 0x30 \<longrightarrow> hp' x = ex_ring x) \<and>
      nxt hp' 0x10 = Some 0x30 \<and> prv hp' 0x30 = Some 0x10 \<and>
      prv hp' 0x10 = prv ex_ring 0x10 \<and> nxt hp' 0x30 = nxt ex_ring 0x30)"
proof -
  have r: "ring ex_ring [0x10, 0x20, 0x30]"
    by (simp add: ex_simps ex_ring_def)
  have x: "0x20 \<in> set [0x10, 0x20, 0x30 :: 64 word]"
    by simp
  have e: "deref ex_ring 0x20 = Some \<lparr>next = 0x30, prev = 0x10\<rparr>"
    by (simp add: ex_simps ex_ring_def)
  from list_del_frame [OF r x e] r e show ?thesis
    by auto
qed

text \<open>
  C10. For an isolated Link \<open>old_node\<close>, whose two fields point to itself, and a valid
  Link \<open>new_node\<close> other than it, \<^verbatim>\<open>list_replace\<close> returns and leaves both fields of
  \<open>new_node\<close> pointing to \<open>new_node\<close>: replacing an empty head gives an empty head.
\<close>

theorem list_replace_isolated:
  assumes "nxt hp old_node = Some old_node" "prv hp old_node = Some old_node"
    "fresh hp [old_node] new_node"
  shows "\<exists>hp'. list_replace hp old_node new_node = Some hp' \<and>
    nxt hp' new_node = Some new_node \<and> prv hp' new_node = Some new_node"
proof -
  from assms have r: "ring hp [old_node]" by (simp add: ring_isolated)
  from ring_replace_hd [OF r assms(3)] show ?thesis
    by (auto simp: ring_isolated)
qed

text \<open>Replacing the empty head at \<open>0x10\<close> by the unlinked Link at \<open>0x20\<close>.\<close>

theorem list_replace_isolated_witness:
  "nxt ex_empty 0x10 = Some 0x10 \<and> prv ex_empty 0x10 = Some 0x10 \<and> fresh ex_empty [0x10] 0x20 \<and>
   (\<exists>hp'. list_replace ex_empty 0x10 0x20 = Some hp' \<and>
      nxt hp' 0x20 = Some 0x20 \<and> prv hp' 0x20 = Some 0x20)"
proof -
  have h: "nxt ex_empty 0x10 = Some 0x10" "prv ex_empty 0x10 = Some 0x10"
    "fresh ex_empty [0x10] 0x20"
    by (simp_all add: ex_simps ex_empty_def)
  from list_replace_isolated [OF h] h show ?thesis
    by blast
qed

end
